theory Spec2Isabelle
  imports Main
begin

section \<open>The Fibonacci Durable Object: data model\<close>

text \<open>
  The source is \<^verbatim>\<open>src/index.ts\<close>. Its interfaces become records with the
  source's field names. A timestamp is the integer number of milliseconds
  that \<^verbatim>\<open>Date.now()\<close> returns.
\<close>

record LocationInfo =
  city :: string
  country :: string
  region :: string
  timezone :: string
  latitude :: string
  longitude :: string
  postalCode :: string
  colo :: string

text \<open>
  A counter is a JavaScript \<^verbatim>\<open>number\<close>, an IEEE-754 double. The counters
  of this program are integers or what \<^verbatim>\<open>+\<close> makes of integers:
  \<open>Fin n\<close> is the double whose value is the integer \<open>n\<close> (the two zeros,
  which \<^verbatim>\<open>+\<close>, \<^verbatim>\<open>||\<close> and \<^verbatim>\<open><\<close> do not tell apart, are both
  \<open>Fin 0\<close>), \<open>PosInf\<close> and \<open>NegInf\<close> are the two infinities and
  \<open>NaN\<close> is not-a-number. Doubles with a fractional part are not in the
  type: no sum of integer doubles has one. Not every integer is a double:
  \<open>Fin n\<close> is one when \<open>n\<close> has at most 53 significant binary digits
  and is below \<open>2^1024\<close> in magnitude, and the sum defined below is what
  \<^verbatim>\<open>+\<close> returns on two such operands.
\<close>

datatype number = Fin int | PosInf | NegInf | NaN

record StoredData =
  counter :: number
  location :: LocationInfo
  timestamp :: int

record ResponseData =
  current :: StoredData
  previous :: "StoredData option"

section \<open>Addition of numbers\<close>

text \<open>
  The number of binary digits of a positive integer.
\<close>

function bit_length :: "int \<Rightarrow> nat" where
  "bit_length n = (if n \<le> 0 then 0 else Suc (bit_length (n div 2)))"
  by pat_completeness auto
termination
  by (relation "measure nat") auto

text \<open>
  Rounding a non-negative integer to the nearest double, ties to the even
  significand. Below \<open>2^53\<close> every integer is a double. Beyond, a double
  has 53 significant binary digits: with \<open>e\<close> the number of digits in
  excess, the integer is cut to a multiple of \<open>2^e\<close>, upwards when the
  remainder is more than half of \<open>2^e\<close>, or exactly half and the quotient
  odd. A result of \<open>2^1024\<close> or more is beyond the largest double and
  becomes infinity.
\<close>

definition round_magnitude :: "int \<Rightarrow> number" where
  "round_magnitude n =
     (if n < 2 ^ 53 then Fin n
      else
        (let e = bit_length n - 53;
             q = n div 2 ^ e;
             r = n mod 2 ^ e;
             q' = (if 2 ^ e < 2 * r \<or> (2 * r = 2 ^ e \<and> odd q) then q + 1 else q);
             m = q' * 2 ^ e
         in if 2 ^ 1024 \<le> m then PosInf else Fin m))"

fun js_negate :: "number \<Rightarrow> number" where
  "js_negate (Fin n) = Fin (- n)"
| "js_negate PosInf = NegInf"
| "js_negate NegInf = PosInf"
| "js_negate NaN = NaN"

definition round_double :: "int \<Rightarrow> number" where
  "round_double n = (if 0 \<le> n then round_magnitude n else js_negate (round_magnitude (- n)))"

text \<open>
  \<^verbatim>\<open>a + b\<close> on numbers: the exact sum, rounded once; not-a-number is
  contagious and is the sum of the two opposite infinities.
\<close>

fun js_add :: "number \<Rightarrow> number \<Rightarrow> number" where
  "js_add NaN b = NaN"
| "js_add a NaN = NaN"
| "js_add PosInf NegInf = NaN"
| "js_add NegInf PosInf = NaN"
| "js_add PosInf b = PosInf"
| "js_add a PosInf = PosInf"
| "js_add NegInf b = NegInf"
| "js_add a NegInf = NegInf"
| "js_add (Fin a) (Fin b) = round_double (a + b)"

text \<open>
  \<^verbatim>\<open>a < b\<close> and \<^verbatim>\<open>a <= b\<close> on numbers: false when either is
  not-a-number.
\<close>

fun js_less :: "number \<Rightarrow> number \<Rightarrow> bool" where
  "js_less NaN b = False"
| "js_less a NaN = False"
| "js_less a NegInf = False"
| "js_less PosInf b = False"
| "js_less NegInf b = True"
| "js_less a PosInf = True"
| "js_less (Fin a) (Fin b) = (a < b)"

fun js_less_eq :: "number \<Rightarrow> number \<Rightarrow> bool" where
  "js_less_eq NaN b = False"
| "js_less_eq a NaN = False"
| "js_less_eq NegInf b = True"
| "js_less_eq a PosInf = True"
| "js_less_eq a NegInf = False"
| "js_less_eq PosInf b = False"
| "js_less_eq (Fin a) (Fin b) = (a \<le> b)"

text \<open>
  The falsy numbers are zero and not-a-number.
\<close>

definition falsy :: "number \<Rightarrow> bool" where
  "falsy n = (n = Fin 0 \<or> n = NaN)"

section \<open>The durable store\<close>

text \<open>
  The private key/value storage of one object: a map from keys to stored
  records. A key that was never written reads as \<open>None\<close> (the
  \<^verbatim>\<open>undefined\<close> of the source).
\<close>

type_synonym storage = "string \<rightharpoonup> StoredData"

datatype error = StorageReadFailure | StorageWriteFailure

text \<open>
  Which storage calls reject is decided by the platform, not by the source;
  it is a parameter of the model: for each key, whether a \<^verbatim>\<open>get\<close> of it
  and whether a \<^verbatim>\<open>put\<close> to it fails.
\<close>

record faults =
  get_fails :: "string \<Rightarrow> bool"
  put_fails :: "string \<Rightarrow> bool"

definition no_faults :: faults where
  "no_faults = \<lparr>get_fails = (\<lambda>k. False), put_fails = (\<lambda>k. False)\<rparr>"

text \<open>
  Modelled from the spec: the two operations of the platform's storage
  interface (\<^verbatim>\<open>this.ctx.storage.get\<close> and \<^verbatim>\<open>this.ctx.storage.put\<close>),
  which the source calls and does not define. A \<^verbatim>\<open>get\<close> returns the
  last record written under the key or absent; a \<^verbatim>\<open>put\<close> either
  stores the record under the key or fails and changes nothing.
\<close>

definition storage_get :: "faults \<Rightarrow> storage \<Rightarrow> string \<Rightarrow> error + StoredData option" where
  "storage_get f s k = (if get_fails f k then Inl StorageReadFailure else Inr (s k))"

definition storage_put :: "faults \<Rightarrow> storage \<Rightarrow> string \<Rightarrow> StoredData \<Rightarrow> error + storage" where
  "storage_put f s k v = (if put_fails f k then Inl StorageWriteFailure else Inr (s(k \<mapsto> v)))"

section \<open>The operation\<close>

text \<open>
  \<^verbatim>\<open>previousData?.counter || 1\<close>: the optional chain gives
  \<^verbatim>\<open>undefined\<close> when there is no previous record, and \<^verbatim>\<open>||\<close> replaces
  \<^verbatim>\<open>undefined\<close> and every falsy number by its right operand.
\<close>

definition optional_counter :: "StoredData option \<Rightarrow> number option" where
  "optional_counter d = (case d of None \<Rightarrow> None | Some r \<Rightarrow> Some (counter r))"

definition or_else :: "number option \<Rightarrow> number \<Rightarrow> number" where
  "or_else v d = (case v of None \<Rightarrow> d | Some n \<Rightarrow> if falsy n then d else n)"

text \<open>
  \<^verbatim>\<open>getCounter\<close>, statement by statement. The clock value \<open>now\<close> is what
  \<^verbatim>\<open>Date.now()\<close> returns in this invocation. The result is the response
  or the error that rejected the promise, together with the storage as the
  invocation leaves it. The local \<^verbatim>\<open>previous_counter\<close> of the source is
  assigned and never read, and has no counterpart here.
\<close>

definition getCounter ::
  "faults \<Rightarrow> int \<Rightarrow> storage \<Rightarrow> LocationInfo \<Rightarrow> (error + ResponseData) \<times> storage" where
  "getCounter f now s locationInfo =
    (case storage_get f s ''current'' of
       Inl e \<Rightarrow> (Inl e, s)
     | Inr currentData \<Rightarrow>
    (case storage_get f s ''previous'' of
       Inl e \<Rightarrow> (Inl e, s)
     | Inr previousData \<Rightarrow>
    (let cnt =
           (case currentData of
              None \<Rightarrow> Fin 2
            | Some c \<Rightarrow>
                (let prevCounter = or_else (optional_counter previousData) (Fin 1)
                 in js_add prevCounter (counter c)));
         newCurrentData = \<lparr>counter = cnt, location = locationInfo, timestamp = now\<rparr>
     in
    (case (case currentData of
             None \<Rightarrow> Inr s
           | Some c \<Rightarrow> storage_put f s ''previous'' c) of
       Inl e \<Rightarrow> (Inl e, s)
     | Inr s1 \<Rightarrow>
    (case storage_put f s1 ''current'' newCurrentData of
       Inl e \<Rightarrow> (Inl e, s1)
     | Inr s2 \<Rightarrow>
         (Inr \<lparr>current = newCurrentData, previous = currentData\<rparr>, s2))))))"

text \<open>
  Whether an invocation returned a response.
\<close>

definition succeeded :: "(error + ResponseData) \<times> storage \<Rightarrow> bool" where
  "succeeded res = (case fst res of Inl e \<Rightarrow> False | Inr r \<Rightarrow> True)"

text \<open>
  A series of invocations on one object, none of whose storage calls fail:
  each takes the caller's location and the clock value it reads. The
  responses are collected in order; an invocation that failed would end the
  series.
\<close>

fun run :: "storage \<Rightarrow> (LocationInfo \<times> int) list \<Rightarrow> ResponseData list \<times> storage" where
  "run s [] = ([], s)"
| "run s ((loc, now) # xs) =
     (case getCounter no_faults now s loc of
        (Inl e, s') \<Rightarrow> ([], s')
      | (Inr r, s') \<Rightarrow> (case run s' xs of (rs, s'') \<Rightarrow> (r # rs, s'')))"

definition responses :: "(LocationInfo \<times> int) list \<Rightarrow> ResponseData list" where
  "responses xs = fst (run Map.empty xs)"

definition final_storage :: "(LocationInfo \<times> int) list \<Rightarrow> storage" where
  "final_storage xs = snd (run Map.empty xs)"

definition values_of :: "ResponseData list \<Rightarrow> number list" where
  "values_of rs = map (\<lambda>r. counter (current r)) rs"

text \<open>
  The storage after any series of invocations, each with its own failing
  storage calls: a failed invocation leaves the storage as far as it got,
  and the object serves the next one.
\<close>

fun invoke_all :: "storage \<Rightarrow> (faults \<times> LocationInfo \<times> int) list \<Rightarrow> storage" where
  "invoke_all s [] = s"
| "invoke_all s ((f, loc, now) # ops) = invoke_all (snd (getCounter f now s loc)) ops"

section \<open>Auxiliary definitions for the statements\<close>

text \<open>
  The series that starts from two given values and continues by adding the
  last two, in the integers and in the numbers: \<open>fib_from a b n\<close> lists the
  \<open>n\<close> values after \<open>a\<close> and \<open>b\<close>.
\<close>

fun fib_from :: "int \<Rightarrow> int \<Rightarrow> nat \<Rightarrow> int list" where
  "fib_from a b 0 = []"
| "fib_from a b (Suc n) = (a + b) # fib_from b (a + b) n"

fun js_fib_from :: "number \<Rightarrow> number \<Rightarrow> nat \<Rightarrow> number list" where
  "js_fib_from a b 0 = []"
| "js_fib_from a b (Suc n) = js_add a b # js_fib_from b (js_add a b) n"

text \<open>
  The value an invocation returns as \<^verbatim>\<open>current.counter\<close>, if it returns.
\<close>

definition new_value :: "(error + ResponseData) \<times> storage \<Rightarrow> number option" where
  "new_value res = (case fst res of Inl e \<Rightarrow> None | Inr r \<Rightarrow> Some (counter (current r)))"

text \<open>
  Concrete inputs: the location the fetch handler builds when the request
  carries no \<^verbatim>\<open>cf\<close> object, a stored record with a given counter and
  timestamp, a platform on which exactly the writes to the key
  \<^verbatim>\<open>current\<close> fail, and series of invocations: four with their clock
  reads, two of which the second fails to write \<^verbatim>\<open>current\<close>, and any
  number of identical ones.
\<close>

definition unknown_location :: LocationInfo where
  "unknown_location =
     \<lparr>city = ''Unknown'', country = ''Unknown'', region = ''Unknown'', timezone = ''Unknown'',
      latitude = ''Unknown'', longitude = ''Unknown'', postalCode = ''Unknown'', colo = ''Unknown''\<rparr>"

definition stored :: "number \<Rightarrow> int \<Rightarrow> StoredData" where
  "stored v t = \<lparr>counter = v, location = unknown_location, timestamp = t\<rparr>"

definition current_write_fails :: faults where
  "current_write_fails = \<lparr>get_fails = (\<lambda>k. False), put_fails = (\<lambda>k. k = ''current'')\<rparr>"

definition four_invocations :: "(LocationInfo \<times> int) list" where
  "four_invocations =
     [(unknown_location, 10), (unknown_location, 20), (unknown_location, 20), (unknown_location, 35)]"

definition failed_write_series :: "(faults \<times> LocationInfo \<times> int) list" where
  "failed_write_series =
     [(no_faults, unknown_location, 10), (current_write_fails, unknown_location, 20)]"

definition invocations :: "nat \<Rightarrow> (LocationInfo \<times> int) list" where
  "invocations n = replicate n (unknown_location, 0)"

text \<open>
  The invariants. Between a stored previous counter and a stored current
  counter of a series without failures: the previous is at least 2, and the
  current is above it and at most three times it, or is infinity; once the
  previous is infinity, so is the current.
\<close>

definition growing :: "number \<Rightarrow> number \<Rightarrow> bool" where
  "growing p c =
     (case p of
        Fin a \<Rightarrow>
          2 \<le> a \<and>
          (case c of Fin b \<Rightarrow> a < b \<and> b \<le> 3 * a | PosInf \<Rightarrow> True | NegInf \<Rightarrow> False | NaN \<Rightarrow> False)
      | PosInf \<Rightarrow> c = PosInf
      | NegInf \<Rightarrow> False
      | NaN \<Rightarrow> False)"

text \<open>
  Of the storage along a series without failures from the empty storage: no
  key but the two slots; no previous record without a current one; a lone
  current counter is 2; the two counters are growing.
\<close>

definition fib_state :: "storage \<Rightarrow> bool" where
  "fib_state s =
     (dom s \<subseteq> {''current'', ''previous''} \<and>
      (case s ''current'' of
         None \<Rightarrow> s ''previous'' = None
       | Some c \<Rightarrow>
           (case s ''previous'' of
              None \<Rightarrow> counter c = Fin 2
            | Some p \<Rightarrow> growing (counter p) (counter c))))"

text \<open>
  Of the storage along any series of invocations from the empty storage,
  failed ones included: no key but the two slots, and no previous record
  without a current one.
\<close>

definition two_slots :: "storage \<Rightarrow> bool" where
  "two_slots s =
     (dom s \<subseteq> {''current'', ''previous''} \<and>
      (case s ''current'' of None \<Rightarrow> s ''previous'' = None | Some c \<Rightarrow> True))"

text \<open>
  A lower bound on a counter: \<open>grown j v\<close> when \<open>v\<close> is infinity, or a
  double of at least \<open>2 * (5/4)^j\<close>.
\<close>

definition grown :: "nat \<Rightarrow> number \<Rightarrow> bool" where
  "grown j v =
     (case v of
        Fin m \<Rightarrow> 5 ^ j * 2 \<le> 4 ^ j * m \<and> m < 2 ^ 1024
      | PosInf \<Rightarrow> True
      | NegInf \<Rightarrow> False
      | NaN \<Rightarrow> False)"

section \<open>Rounding and growth\<close>

declare bit_length.simps [simp del]

lemma bit_length_lower: "0 < n \<Longrightarrow> 2 ^ bit_length n \<le> 2 * n"
proof (induction n rule: bit_length.induct)
  case (1 n)
  show ?case
  proof (cases "n div 2 \<le> 0")
    case True
    with "1.prems" have "n = 1" by linarith
    then show ?thesis by (simp add: bit_length.simps)
  next
    case False
    then have "2 ^ bit_length (n div 2) \<le> 2 * (n div 2)"
      using "1.IH" "1.prems" by simp
    moreover have "2 * (n div 2) \<le> n" by simp
    ultimately have "2 * 2 ^ bit_length (n div 2) \<le> 2 * n" by linarith
    moreover have "bit_length n = Suc (bit_length (n div 2))"
      using "1.prems" by (subst bit_length.simps) simp
    ultimately show ?thesis by simp
  qed
qed

lemma excess_le:
  assumes "2 ^ 53 \<le> (n::int)"
  shows "16 * 2 ^ (bit_length n - 53) \<le> n"
proof (cases "53 \<le> bit_length n")
  case True
  define e where "e = bit_length n - 53"
  have b: "bit_length n = e + 53" using True by (simp add: e_def)
  have pos: "0 < n" using assms by (rule less_le_trans [rotated]) simp
  have "(2::int) ^ e * 2 ^ 53 \<le> 2 * n"
    using bit_length_lower [OF pos] unfolding b by (simp only: power_add)
  then have "(2::int) ^ e * 2 ^ 52 \<le> n" by simp
  moreover have "(2::int) ^ e * 16 \<le> 2 ^ e * 2 ^ 52"
    by (rule mult_left_mono) simp_all
  ultimately have "(2::int) ^ e * 16 \<le> n" by (rule order_trans [rotated])
  then show ?thesis unfolding e_def by (simp add: mult.commute)
next
  case False
  then have "bit_length n - 53 = 0" by simp
  moreover have "(16::int) \<le> 2 ^ 53" by simp
  ultimately show ?thesis using assms by simp
qed

lemma round_magnitude_bounds:
  assumes "0 \<le> n"
  shows "round_magnitude n = PosInf \<or>
    (\<exists>m. round_magnitude n = Fin m \<and> 15 * n \<le> 16 * m \<and> 16 * m \<le> 17 * n \<and> m < 2 ^ 1024)"
proof (cases "n < 2 ^ 53")
  case True
  have "(2::int) ^ 53 < 2 ^ 1024" by (rule power_strict_increasing) simp_all
  with True have "n < 2 ^ 1024" by (rule less_trans)
  then show ?thesis using True assms by (simp add: round_magnitude_def)
next
  case False
  define d :: int where "d = 2 ^ (bit_length n - 53)"
  define q where "q = n div d"
  define r where "r = n mod d"
  define x where "x = q * d"
  define q' where "q' = (if d < 2 * r \<or> (2 * r = d \<and> odd q) then q + 1 else q)"
  have dpos: "0 < d" by (simp add: d_def)
  have big: "16 * d \<le> n" using False excess_le [of n] by (simp add: d_def)
  have n: "n = x + r" by (simp add: x_def q_def r_def)
  have r: "0 \<le> r" "r < d" using dpos by (simp_all add: r_def)
  have "16 * d \<le> x + r" using big n by simp
  then have "16 * d < q * d + d" using r unfolding x_def by linarith
  moreover have "(q + 1) * d = q * d + d" by (simp add: distrib_right)
  ultimately have "16 * d < (q + 1) * d" by (simp only:)
  then have "16 < q + 1" using dpos by (simp only: mult_less_cancel_right_pos)
  then have "16 \<le> q" by simp
  then have "16 * d \<le> q * d" using dpos by (simp only: mult_le_cancel_right_pos)
  then have x: "16 * d \<le> x" by (simp add: x_def)
  have m: "q' * d = x \<or> q' * d = x + d"
    by (simp add: q'_def x_def distrib_right)
  have rm: "round_magnitude n = (if 2 ^ 1024 \<le> q' * d then PosInf else Fin (q' * d))"
    using False unfolding round_magnitude_def Let_def d_def q'_def q_def r_def by (simp only: if_False)
  show ?thesis
  proof (cases "2 ^ 1024 \<le> q' * d")
    case True
    then show ?thesis by (simp only: rm if_True simp_thms)
  next
    case no: False
    have "15 * n \<le> 16 * (q' * d) \<and> 16 * (q' * d) \<le> 17 * n"
      using m n r x by linarith
    moreover have "q' * d < 2 ^ 1024" using no by (simp only: not_le)
    ultimately show ?thesis using no by (simp only: rm if_False) blast
  qed
qed

lemma js_add_exact:
  assumes "- (2 ^ 53) < a + b" "a + b < 2 ^ 53"
  shows "js_add (Fin a) (Fin b) = Fin (a + b)"
proof (cases "0 \<le> a + b")
  case True
  then show ?thesis using assms(2) by (simp add: round_double_def round_magnitude_def)
next
  case False
  then have "- (a + b) < 2 ^ 53" using assms(1) by simp
  then have "round_magnitude (- (a + b)) = Fin (- (a + b))"
    unfolding round_magnitude_def by (simp only: if_True)
  then show ?thesis using False by (simp add: round_double_def)
qed

text \<open>
  The order of the operands of \<^verbatim>\<open>+\<close> does not matter.
\<close>

lemma js_add_commute: "js_add a b = js_add b a"
  by (cases a; cases b) (simp_all add: add.commute)

lemma js_add_growing:
  assumes "2 \<le> a" "a < b" "b \<le> 3 * a"
  shows "js_add (Fin a) (Fin b) = PosInf \<or>
    (\<exists>m. js_add (Fin a) (Fin b) = Fin m \<and> b < m \<and> m \<le> 3 * b \<and> 5 * b \<le> 4 * m \<and> m < 2 ^ 1024)"
proof -
  have nn: "0 \<le> a + b" using assms by simp
  then have eq: "js_add (Fin a) (Fin b) = round_magnitude (a + b)"
    by (simp add: round_double_def)
  from round_magnitude_bounds [OF nn] show ?thesis
  proof
    assume "round_magnitude (a + b) = PosInf"
    then show ?thesis by (simp only: eq simp_thms)
  next
    assume "\<exists>m. round_magnitude (a + b) = Fin m \<and> 15 * (a + b) \<le> 16 * m
      \<and> 16 * m \<le> 17 * (a + b) \<and> m < 2 ^ 1024"
    then obtain m where m: "round_magnitude (a + b) = Fin m"
      and lo: "15 * (a + b) \<le> 16 * m" and hi: "16 * m \<le> 17 * (a + b)"
      and fin: "m < 2 ^ 1024"
      by (elim exE conjE)
    have lo': "15 * a + 15 * b \<le> 16 * m" using lo by (simp add: distrib_left)
    have hi': "16 * m \<le> 17 * a + 17 * b" using hi by (simp add: distrib_left)
    have "b < m" using lo' assms by arith
    moreover have "m \<le> 3 * b" using hi' assms by arith
    moreover have "5 * b \<le> 4 * m" using lo' assms by arith
    ultimately show ?thesis using m fin unfolding eq by blast
  qed
qed

lemma growing_Fin:
  "growing (Fin a) (Fin b) = (2 \<le> a \<and> a < b \<and> b \<le> 3 * a)"
  by (simp add: growing_def)

lemma growing_cases:
  assumes "growing p c"
  obtains (finite) a b where "p = Fin a" "c = Fin b" "2 \<le> a" "a < b" "b \<le> 3 * a"
  | (overflow) a where "p = Fin a" "c = PosInf" "2 \<le> a"
  | (saturated) "p = PosInf" "c = PosInf"
  using assms by (cases p; cases c) (simp_all add: growing_def)

lemma growing_step: "growing p c \<Longrightarrow> growing c (js_add p c)"
proof (erule growing_cases)
  fix a b
  assume pc: "p = Fin a" "c = Fin b" and ab: "2 \<le> a" "a < b" "b \<le> 3 * a"
  from js_add_growing [OF ab] show ?thesis
  proof
    assume "js_add (Fin a) (Fin b) = PosInf"
    then show ?thesis using ab by (simp add: pc growing_def)
  next
    assume "\<exists>m. js_add (Fin a) (Fin b) = Fin m \<and> b < m \<and> m \<le> 3 * b \<and> 5 * b \<le> 4 * m
      \<and> m < 2 ^ 1024"
    then obtain m where "js_add (Fin a) (Fin b) = Fin m" "b < m" "m \<le> 3 * b"
      by (elim exE conjE)
    then show ?thesis using ab by (simp add: pc growing_Fin)
  qed
next
  fix a
  assume "p = Fin a" "c = PosInf" "2 \<le> a"
  then show ?thesis by (simp add: growing_def)
next
  assume "p = PosInf" "c = PosInf"
  then show ?thesis by (simp add: growing_def)
qed

lemma growing_truthy: "growing p c \<Longrightarrow> \<not> falsy p \<and> \<not> falsy c"
  by (erule growing_cases) (auto simp add: falsy_def)

lemma growing_or_else: "growing p c \<Longrightarrow> or_else (Some p) d = p"
  using growing_truthy [of p c] by (simp add: or_else_def)

lemma growing_at_least: "growing p c \<Longrightarrow> js_less_eq (Fin 2) p \<and> js_less_eq (Fin 2) c"
  by (erule growing_cases) auto

lemma growing_less: "growing p c \<Longrightarrow> js_less p c \<or> (p = PosInf \<and> c = PosInf)"
  by (erule growing_cases) auto


lemma grown_step:
  assumes "growing p c" "grown j c"
  shows "grown (Suc j) (js_add p c)"
  using assms(1)
proof (cases rule: growing_cases)
  case (finite a b)
  from assms(2) have b: "5 ^ j * 2 \<le> 4 ^ j * b" by (simp add: grown_def finite)
  from js_add_growing [OF finite(3-5)] show ?thesis
  proof
    assume "js_add (Fin a) (Fin b) = PosInf"
    then show ?thesis by (simp add: finite grown_def)
  next
    assume "\<exists>m. js_add (Fin a) (Fin b) = Fin m \<and> b < m \<and> m \<le> 3 * b \<and> 5 * b \<le> 4 * m
      \<and> m < 2 ^ 1024"
    then obtain m where m: "js_add (Fin a) (Fin b) = Fin m" and g: "5 * b \<le> 4 * m"
      and fin: "m < 2 ^ 1024"
      by (elim exE conjE)
    have "5 * (5 ^ j * 2) \<le> 5 * (4 ^ j * b)" using b by (intro mult_left_mono) simp_all
    also have "\<dots> = 4 ^ j * (5 * b)" by simp
    also have "\<dots> \<le> 4 ^ j * (4 * m)" using g by (intro mult_left_mono) simp_all
    finally have "5 ^ Suc j * 2 \<le> 4 ^ Suc j * m" by (simp add: mult.assoc)
    then show ?thesis unfolding finite m grown_def using fin by (simp only: number.case simp_thms)
  qed
next
  case (overflow a)
  then show ?thesis by (simp add: grown_def)
next
  case saturated
  then show ?thesis by (simp add: grown_def)
qed

lemma power_four_five:
  assumes "4 * k \<le> j"
  shows "(4::int) ^ j * 2 ^ k \<le> 5 ^ j"
proof -
  obtain d where j: "j = d + 4 * k" using assms by (metis le_add_diff_inverse2)
  have a: "(4::int) ^ d \<le> 5 ^ d" by (rule power_mono) simp_all
  have "(512::int) ^ k \<le> 625 ^ k" by (rule power_mono) simp_all
  moreover have "(512::int) ^ k = (4 ^ 4) ^ k * 2 ^ k"
    by (simp add: power_mult_distrib [symmetric])
  moreover have "(625::int) ^ k = (5 ^ 4) ^ k" by simp
  ultimately have b: "((4::int) ^ 4) ^ k * 2 ^ k \<le> (5 ^ 4) ^ k" by (simp only:)
  have "(4::int) ^ d * (((4::int) ^ 4) ^ k * 2 ^ k) \<le> 5 ^ d * (5 ^ 4) ^ k"
    using a b by (rule mult_mono) simp_all
  then show ?thesis unfolding j power_add power_mult by (simp only: mult.assoc)
qed

lemma grown_overflow:
  assumes "4096 \<le> j" "grown j v"
  shows "v = PosInf"
proof (cases v)
  case (Fin m)
  with assms(2) have lo: "5 ^ j * 2 \<le> 4 ^ j * m" and fin: "m < 2 ^ 1024"
    by (simp_all only: grown_def number.case)
  have "4 * 1024 \<le> j" using assms(1) by simp
  then have p: "(4::int) ^ j * 2 ^ 1024 \<le> 5 ^ j" by (rule power_four_five)
  have "(4::int) ^ j * m < 4 ^ j * 2 ^ 1024"
    using fin by (intro mult_strict_left_mono) simp_all
  with lo p have "(5::int) ^ j * 2 < 5 ^ j" by linarith
  moreover have "(0::int) < 5 ^ j" by simp
  ultimately show ?thesis by linarith
next
  case PosInf
  then show ?thesis .
next
  case NegInf
  with assms(2) show ?thesis by (simp add: grown_def)
next
  case NaN
  with assms(2) show ?thesis by (simp add: grown_def)
qed

section \<open>The series of sums\<close>

lemma js_fib_from_take: "take n (js_fib_from a b (n + m)) = js_fib_from a b n"
  by (induction n arbitrary: a b) simp_all

lemma js_fib_recurrence:
  "Suc (Suc i) < n \<Longrightarrow>
     js_fib_from a b n ! Suc (Suc i) = js_add (js_fib_from a b n ! i) (js_fib_from a b n ! Suc i)"
proof (induction n arbitrary: a b i)
  case 0
  then show ?case by simp
next
  case (Suc n)
  show ?case
  proof (cases i)
    case 0
    with Suc.prems have "n = Suc (Suc (n - 2))" by simp
    then obtain m where "n = Suc (Suc m)" ..
    then show ?thesis using 0 by simp
  next
    case (Suc j)
    with Suc.prems have "Suc (Suc j) < n" by simp
    from Suc.IH [OF this] show ?thesis using Suc by simp
  qed
qed

lemma js_fib_chain:
  "growing a b \<Longrightarrow> i < n \<Longrightarrow>
     growing ((b # js_fib_from a b n) ! i) ((b # js_fib_from a b n) ! Suc i)"
proof (induction n arbitrary: a b i)
  case 0
  then show ?case by simp
next
  case (Suc n)
  have step: "growing b (js_add a b)" using Suc.prems(1) by (rule growing_step)
  show ?case
  proof (cases i)
    case 0
    then show ?thesis using step by simp
  next
    case (Suc j)
    with Suc.prems have "j < n" by simp
    from Suc.IH [OF step this] show ?thesis using Suc by simp
  qed
qed

lemma js_fib_grown:
  "growing a b \<Longrightarrow> grown j b \<Longrightarrow> i < n \<Longrightarrow> grown (j + Suc i) (js_fib_from a b n ! i)"
proof (induction n arbitrary: a b i j)
  case 0
  then show ?case by simp
next
  case (Suc n)
  have step: "growing b (js_add a b)" using Suc.prems(1) by (rule growing_step)
  have g: "grown (Suc j) (js_add a b)" using Suc.prems(1,2) by (rule grown_step)
  show ?case
  proof (cases i)
    case 0
    then show ?thesis using g by simp
  next
    case (Suc k)
    with Suc.prems have "k < n" by simp
    from Suc.IH [OF step g this] show ?thesis using Suc by simp
  qed
qed

lemma js_fib_76: "js_fib_from (Fin 1) (Fin 1) 76 = map Fin (fib_from 1 1 76)"
  by code_simp

lemma round_double_small: "- (2 ^ 53) < n \<Longrightarrow> n < 2 ^ 53 \<Longrightarrow> round_double n = Fin n"
  using js_add_exact [of n 0] by simp

lemma growing_2_3: "growing (Fin 2) (Fin 3)"
  by (simp add: growing_def)

lemma grown_3: "grown 0 (Fin 3)"
proof -
  have "(2::int) ^ 2 \<le> 2 ^ 1024" by (rule power_increasing) simp_all
  then have "(3::int) < 2 ^ 1024" by (simp only: power2_eq_square)
  then show ?thesis by (simp only: grown_def number.case) simp
qed

lemma js_fib_overflow:
  assumes "4097 \<le> k" "k < n"
  shows "js_fib_from (Fin 1) (Fin 1) n ! k = PosInf"
proof -
  have "n = Suc (Suc (n - 2))" using assms by linarith
  then obtain m where n: "n = Suc (Suc m)" ..
  have "k = Suc (Suc (k - 2))" using assms by linarith
  then obtain i where k: "k = Suc (Suc i)" ..
  have i: "i < m" using assms(2) by (simp add: n k)
  have "grown (0 + Suc i) (js_fib_from (Fin 2) (Fin 3) m ! i)"
    using growing_2_3 grown_3 i by (rule js_fib_grown)
  moreover have "4096 \<le> 0 + Suc i" using assms(1) by (simp add: k)
  ultimately have "js_fib_from (Fin 2) (Fin 3) m ! i = PosInf" by (rule grown_overflow [rotated])
  then show ?thesis by (simp add: n k round_double_small)
qed

lemma js_fib_increasing:
  assumes "Suc k < n"
  shows "growing (js_fib_from (Fin 1) (Fin 1) n ! k) (js_fib_from (Fin 1) (Fin 1) n ! Suc k)"
proof -
  have "n = Suc (Suc (n - 2))" using assms by linarith
  then obtain m where n: "n = Suc (Suc m)" ..
  show ?thesis
  proof (cases k)
    case 0
    then show ?thesis using growing_2_3 by (simp add: n round_double_small)
  next
    case (Suc i)
    with assms have "i < m" by (simp add: n)
    with growing_2_3 have "growing ((Fin 3 # js_fib_from (Fin 2) (Fin 3) m) ! i)
        ((Fin 3 # js_fib_from (Fin 2) (Fin 3) m) ! Suc i)"
      by (rule js_fib_chain)
    then show ?thesis by (simp add: n Suc round_double_small)
  qed
qed

section \<open>One invocation\<close>

lemma getCounter_first:
  assumes "s ''current'' = None"
  shows "getCounter no_faults now s loc =
    (Inr \<lparr>current = \<lparr>counter = Fin 2, location = loc, timestamp = now\<rparr>, previous = None\<rparr>,
     s(''current'' \<mapsto> \<lparr>counter = Fin 2, location = loc, timestamp = now\<rparr>))"
  using assms by (simp add: getCounter_def storage_get_def storage_put_def no_faults_def Let_def)

lemma getCounter_next:
  assumes "s ''current'' = Some c"
  shows "getCounter no_faults now s loc =
    (Inr \<lparr>current =
            \<lparr>counter = js_add (or_else (optional_counter (s ''previous'')) (Fin 1)) (counter c),
             location = loc, timestamp = now\<rparr>,
          previous = Some c\<rparr>,
     s(''previous'' \<mapsto> c,
       ''current'' \<mapsto>
         \<lparr>counter = js_add (or_else (optional_counter (s ''previous'')) (Fin 1)) (counter c),
          location = loc, timestamp = now\<rparr>))"
  using assms by (simp add: getCounter_def storage_get_def storage_put_def no_faults_def Let_def)

lemma getCounter_succeeds: "succeeded (getCounter no_faults now s loc)"
  by (cases "s ''current''") (simp_all add: succeeded_def getCounter_first getCounter_next)

lemma success_general:
  "succeeded (getCounter f now s loc) \<Longrightarrow> getCounter f now s loc = getCounter no_faults now s loc"
  by (simp add: succeeded_def getCounter_def storage_get_def storage_put_def no_faults_def Let_def
      split: if_splits option.splits)

lemma two_slots_getCounter: "two_slots s \<Longrightarrow> two_slots (snd (getCounter f now s loc))"
  by (auto simp add: two_slots_def getCounter_def storage_get_def storage_put_def Let_def
      split: if_splits option.splits)

lemma two_slots_invoke_all: "two_slots s \<Longrightarrow> two_slots (invoke_all s ops)"
proof (induction ops arbitrary: s)
  case Nil
  then show ?case by simp
next
  case (Cons x ops)
  obtain f loc now where x: "x = (f, loc, now)" by (cases x)
  show ?case unfolding x using Cons.prems by (simp add: Cons.IH two_slots_getCounter)
qed

lemma two_slots_reachable: "two_slots (invoke_all Map.empty ops)"
  by (rule two_slots_invoke_all) (simp add: two_slots_def)

section \<open>Series of invocations\<close>

lemma run_first:
  assumes "s ''current'' = None"
  shows "run s ((loc, now) # xs) =
    (\<lparr>current = \<lparr>counter = Fin 2, location = loc, timestamp = now\<rparr>, previous = None\<rparr>
       # fst (run (s(''current'' \<mapsto> \<lparr>counter = Fin 2, location = loc, timestamp = now\<rparr>)) xs),
     snd (run (s(''current'' \<mapsto> \<lparr>counter = Fin 2, location = loc, timestamp = now\<rparr>)) xs))"
  using assms by (simp add: getCounter_first split: prod.splits)

lemma run_next:
  assumes "s ''current'' = Some c"
    and "n = \<lparr>counter = js_add (or_else (optional_counter (s ''previous'')) (Fin 1)) (counter c),
               location = loc, timestamp = now\<rparr>"
  shows "run s ((loc, now) # xs) =
    (\<lparr>current = n, previous = Some c\<rparr> # fst (run (s(''previous'' \<mapsto> c, ''current'' \<mapsto> n)) xs),
     snd (run (s(''previous'' \<mapsto> c, ''current'' \<mapsto> n)) xs))"
  using assms by (simp add: getCounter_next split: prod.splits)

declare run.simps(2) [simp del]

lemma fib_state_first:
  assumes "fib_state s" "s ''current'' = None"
  shows "fib_state (s(''current'' \<mapsto> \<lparr>counter = Fin 2, location = loc, timestamp = now\<rparr>))"
  using assms by (auto simp add: fib_state_def)

lemma fib_state_next:
  assumes "fib_state s" "s ''current'' = Some c"
  shows "fib_state (s(''previous'' \<mapsto> c,
     ''current'' \<mapsto>
       \<lparr>counter = js_add (or_else (optional_counter (s ''previous'')) (Fin 1)) (counter c),
        location = loc, timestamp = now\<rparr>))"
proof (cases "s ''previous''")
  case None
  with assms have "counter c = Fin 2" by (simp add: fib_state_def)
  moreover have "growing (Fin 2) (js_add (Fin 1) (Fin 2))"
    by (simp add: round_double_small growing_def)
  ultimately show ?thesis
    using assms None by (auto simp add: fib_state_def or_else_def optional_counter_def)
next
  case (Some p)
  with assms have g: "growing (counter p) (counter c)" by (simp add: fib_state_def)
  then have "growing (counter c) (js_add (counter p) (counter c))" by (rule growing_step)
  then show ?thesis
    using assms Some growing_or_else [OF g]
    by (auto simp add: fib_state_def optional_counter_def)
qed

lemma run_stepE:
  obtains r s' where
    "\<And>xs. run s ((loc, now) # xs) = (r # fst (run s' xs), snd (run s' xs))"
    "s' ''current'' = Some (current r)"
    "previous r = s ''current''"
    "location (current r) = loc"
    "timestamp (current r) = now"
    "fib_state s \<longrightarrow> fib_state s'"
    "s' ''previous'' = (case s ''current'' of None \<Rightarrow> s ''previous'' | Some c \<Rightarrow> Some c)"
proof (cases "s ''current''")
  case None
  show ?thesis
  proof (rule that)
    show "run s ((loc, now) # xs) =
      (\<lparr>current = \<lparr>counter = Fin 2, location = loc, timestamp = now\<rparr>, previous = None\<rparr>
         # fst (run (s(''current'' \<mapsto> \<lparr>counter = Fin 2, location = loc, timestamp = now\<rparr>)) xs),
       snd (run (s(''current'' \<mapsto> \<lparr>counter = Fin 2, location = loc, timestamp = now\<rparr>)) xs))" for xs
      using None by (rule run_first)
    show "fib_state s \<longrightarrow>
      fib_state (s(''current'' \<mapsto> \<lparr>counter = Fin 2, location = loc, timestamp = now\<rparr>))"
      using None by (simp add: fib_state_first)
  qed (simp_all add: None)
next
  case (Some c)
  define n where
    "n = \<lparr>counter = js_add (or_else (optional_counter (s ''previous'')) (Fin 1)) (counter c),
          location = loc, timestamp = now\<rparr>"
  show ?thesis
  proof (rule that)
    show "run s ((loc, now) # xs) =
      (\<lparr>current = n, previous = Some c\<rparr> # fst (run (s(''previous'' \<mapsto> c, ''current'' \<mapsto> n)) xs),
       snd (run (s(''previous'' \<mapsto> c, ''current'' \<mapsto> n)) xs))" for xs
      using Some n_def by (rule run_next)
    show "fib_state s \<longrightarrow> fib_state (s(''previous'' \<mapsto> c, ''current'' \<mapsto> n))"
      unfolding n_def using Some by (simp add: fib_state_next)
  qed (simp_all add: Some n_def)
qed

lemma run_length: "length (fst (run s xs)) = length xs"
proof (induction xs arbitrary: s)
  case Nil
  then show ?case by simp
next
  case (Cons x xs)
  obtain loc now where x: "x = (loc, now)" by (cases x)
  obtain r s' where
    step: "\<And>ys. run s ((loc, now) # ys) = (r # fst (run s' ys), snd (run s' ys))"
    by (rule run_stepE [of s loc now]) auto
  show ?case using Cons.IH [of s'] by (simp add: x step)
qed

lemma run_fib_state: "fib_state s \<Longrightarrow> fib_state (snd (run s xs))"
proof (induction xs arbitrary: s)
  case Nil
  then show ?case by simp
next
  case (Cons x xs)
  obtain loc now where x: "x = (loc, now)" by (cases x)
  obtain r s' where
    step: "\<And>ys. run s ((loc, now) # ys) = (r # fst (run s' ys), snd (run s' ys))"
    and inv: "fib_state s \<longrightarrow> fib_state s'"
    by (rule run_stepE [of s loc now]) auto
  show ?case using Cons.IH [of s'] Cons.prems inv by (simp add: x step)
qed

lemma fib_state_final: "fib_state (final_storage xs)"
  unfolding final_storage_def by (rule run_fib_state) (simp add: fib_state_def)

lemma run_head_previous: "xs \<noteq> [] \<Longrightarrow> previous (fst (run s xs) ! 0) = s ''current''"
proof (cases xs)
  case Nil
  assume "xs \<noteq> []"
  with Nil show ?thesis by simp
next
  case (Cons x ys)
  obtain loc now where x: "x = (loc, now)" by (cases x)
  obtain r s' where
    step: "\<And>ys. run s ((loc, now) # ys) = (r # fst (run s' ys), snd (run s' ys))"
    and prev: "previous r = s ''current''"
    by (rule run_stepE [of s loc now]) auto
  show ?thesis by (simp add: Cons x step prev)
qed

lemma run_previous_chain:
  "Suc k < length xs \<Longrightarrow>
     previous (fst (run s xs) ! Suc k) = Some (current (fst (run s xs) ! k))"
proof (induction xs arbitrary: s k)
  case Nil
  then show ?case by simp
next
  case (Cons x xs)
  obtain loc now where x: "x = (loc, now)" by (cases x)
  obtain r s' where
    step: "\<And>ys. run s ((loc, now) # ys) = (r # fst (run s' ys), snd (run s' ys))"
    and cur: "s' ''current'' = Some (current r)"
    by (rule run_stepE [of s loc now]) auto
  show ?case
  proof (cases k)
    case 0
    with Cons.prems have "xs \<noteq> []" by auto
    then have "previous (fst (run s' xs) ! 0) = Some (current r)"
      using run_head_previous [of xs s'] cur by simp
    then show ?thesis by (simp add: x step 0)
  next
    case (Suc j)
    with Cons.prems have "Suc j < length xs" by simp
    from Cons.IH [OF this, of s'] show ?thesis by (simp add: x step Suc)
  qed
qed

lemma run_timestamps: "map (\<lambda>r. timestamp (current r)) (fst (run s xs)) = map snd xs"
proof (induction xs arbitrary: s)
  case Nil
  then show ?case by simp
next
  case (Cons x xs)
  obtain loc now where x: "x = (loc, now)" by (cases x)
  obtain r s' where
    step: "\<And>ys. run s ((loc, now) # ys) = (r # fst (run s' ys), snd (run s' ys))"
    and ts: "timestamp (current r) = now"
    by (rule run_stepE [of s loc now]) auto
  show ?case using Cons.IH [of s'] by (simp add: x step ts)
qed

lemma run_stored_current:
  "xs \<noteq> [] \<Longrightarrow> snd (run s xs) ''current'' = Some (current (last (fst (run s xs))))"
proof (induction xs arbitrary: s)
  case Nil
  then show ?case by simp
next
  case (Cons x xs)
  obtain loc now where x: "x = (loc, now)" by (cases x)
  obtain r s' where
    step: "\<And>ys. run s ((loc, now) # ys) = (r # fst (run s' ys), snd (run s' ys))"
    and cur: "s' ''current'' = Some (current r)"
    by (rule run_stepE [of s loc now]) auto
  show ?case
  proof (cases "xs = []")
    case True
    then show ?thesis using cur by (simp add: x step)
  next
    case False
    then have "fst (run s' xs) \<noteq> []" using run_length [of s' xs] by auto
    then show ?thesis using Cons.IH [OF False, of s'] by (simp add: x step)
  qed
qed

lemma run_stored_previous:
  "xs \<noteq> [] \<Longrightarrow> s ''current'' = None \<longrightarrow> s ''previous'' = None \<Longrightarrow>
     snd (run s xs) ''previous'' = previous (last (fst (run s xs)))"
proof (induction xs arbitrary: s)
  case Nil
  then show ?case by simp
next
  case (Cons x xs)
  obtain loc now where x: "x = (loc, now)" by (cases x)
  obtain r s' where
    step: "\<And>ys. run s ((loc, now) # ys) = (r # fst (run s' ys), snd (run s' ys))"
    and cur: "s' ''current'' = Some (current r)"
    and prev: "previous r = s ''current''"
    and slot: "s' ''previous'' = (case s ''current'' of None \<Rightarrow> s ''previous'' | Some c \<Rightarrow> Some c)"
    by (rule run_stepE [of s loc now]) auto
  show ?case
  proof (cases "xs = []")
    case True
    then show ?thesis using slot prev Cons.prems(2) by (simp add: x step split: option.splits)
  next
    case False
    then have "fst (run s' xs) \<noteq> []" using run_length [of s' xs] by auto
    moreover have "s' ''current'' = None \<longrightarrow> s' ''previous'' = None" using cur by simp
    ultimately show ?thesis using Cons.IH [OF False, of s'] by (simp add: x step)
  qed
qed

lemma run_take: "fst (run s (take k xs)) = take k (fst (run s xs))"
proof (induction xs arbitrary: s k)
  case Nil
  then show ?case by simp
next
  case (Cons x xs)
  obtain loc now where x: "x = (loc, now)" by (cases x)
  show ?case
  proof (cases k)
    case 0
    then show ?thesis by simp
  next
    case (Suc j)
    obtain r s' where
      step: "\<And>ys. run s ((loc, now) # ys) = (r # fst (run s' ys), snd (run s' ys))"
      by (rule run_stepE [of s loc now]) auto
    show ?thesis using Cons.IH [of s' j] by (simp add: x Suc step)
  qed
qed

lemma run_stored_nth:
  assumes "k < length xs"
  shows "snd (run s (take (Suc k) xs)) ''current'' = Some (current (fst (run s xs) ! k))"
proof -
  have ne: "take (Suc k) xs \<noteq> []" using assms by (cases xs) simp_all
  have len: "length (fst (run s xs)) = length xs" by (rule run_length)
  have "last (take (Suc k) (fst (run s xs))) = fst (run s xs) ! k"
    using assms len by (simp add: take_Suc_conv_app_nth)
  then show ?thesis using run_stored_current [OF ne, of s] by (simp add: run_take)
qed

lemma run_established:
  assumes "s ''current'' = Some c" "s ''previous'' = Some p" "growing (counter p) (counter c)"
  shows "values_of (fst (run s xs)) = js_fib_from (counter p) (counter c) (length xs)"
  using assms
proof (induction xs arbitrary: s c p)
  case Nil
  then show ?case by (simp add: values_of_def)
next
  case (Cons x xs)
  obtain loc now where x: "x = (loc, now)" by (cases x)
  define n where
    "n = \<lparr>counter = js_add (or_else (optional_counter (s ''previous'')) (Fin 1)) (counter c),
          location = loc, timestamp = now\<rparr>"
  define s' where "s' = s(''previous'' \<mapsto> c, ''current'' \<mapsto> n)"
  have v: "counter n = js_add (counter p) (counter c)"
    using Cons.prems growing_or_else [OF Cons.prems(3)] by (simp add: n_def optional_counter_def)
  have c': "s' ''current'' = Some n" and p': "s' ''previous'' = Some c"
    by (simp_all add: s'_def)
  have g: "growing (counter c) (counter n)"
    unfolding v using Cons.prems(3) by (rule growing_step)
  have ih: "values_of (fst (run s' xs)) = js_fib_from (counter c) (counter n) (length xs)"
    using c' p' g by (rule Cons.IH)
  have "run s (x # xs) = (\<lparr>current = n, previous = Some c\<rparr> # fst (run s' xs), snd (run s' xs))"
    unfolding x s'_def using Cons.prems(1) n_def by (rule run_next)
  then have "values_of (fst (run s (x # xs))) = counter n # values_of (fst (run s' xs))"
    by (simp add: values_of_def)
  then show ?case by (simp add: ih v)
qed

lemma run_seeded:
  assumes "s ''current'' = Some c" "s ''previous'' = None" "counter c = Fin 2"
  shows "values_of (fst (run s xs)) = js_fib_from (Fin 1) (Fin 2) (length xs)"
proof (cases xs)
  case Nil
  then show ?thesis by (simp add: values_of_def)
next
  case (Cons x ys)
  obtain loc now where x: "x = (loc, now)" by (cases x)
  define n where
    "n = \<lparr>counter = js_add (or_else (optional_counter (s ''previous'')) (Fin 1)) (counter c),
          location = loc, timestamp = now\<rparr>"
  define s' where "s' = s(''previous'' \<mapsto> c, ''current'' \<mapsto> n)"
  have v: "counter n = Fin 3"
    using assms by (simp add: n_def or_else_def optional_counter_def round_double_small)
  have c': "s' ''current'' = Some n" and p': "s' ''previous'' = Some c"
    by (simp_all add: s'_def)
  have g: "growing (counter c) (counter n)" by (simp add: v assms(3) growing_def)
  have rest: "values_of (fst (run s' ys)) = js_fib_from (counter c) (counter n) (length ys)"
    using c' p' g by (rule run_established)
  have "run s (x # ys) = (\<lparr>current = n, previous = Some c\<rparr> # fst (run s' ys), snd (run s' ys))"
    unfolding x s'_def using assms(1) n_def by (rule run_next)
  then have "values_of (fst (run s (x # ys))) = counter n # values_of (fst (run s' ys))"
    by (simp add: values_of_def)
  then show ?thesis by (simp add: Cons rest v assms(3) round_double_small)
qed

lemma run_fresh:
  assumes "s ''current'' = None" "s ''previous'' = None"
  shows "values_of (fst (run s xs)) = js_fib_from (Fin 1) (Fin 1) (length xs)"
proof (cases xs)
  case Nil
  then show ?thesis by (simp add: values_of_def)
next
  case (Cons x ys)
  obtain loc now where x: "x = (loc, now)" by (cases x)
  define n where "n = \<lparr>counter = Fin 2, location = loc, timestamp = now\<rparr>"
  define s' where "s' = s(''current'' \<mapsto> n)"
  have c': "s' ''current'' = Some n" and p': "s' ''previous'' = None"
    using assms by (simp_all add: s'_def)
  have rest: "values_of (fst (run s' ys)) = js_fib_from (Fin 1) (Fin 2) (length ys)"
    using c' p' by (rule run_seeded) (simp add: n_def)
  have "run s (x # ys) = (\<lparr>current = n, previous = None\<rparr> # fst (run s' ys), snd (run s' ys))"
    unfolding x s'_def n_def using assms(1) by (rule run_first)
  then have "values_of (fst (run s (x # ys))) = counter n # values_of (fst (run s' ys))"
    by (simp add: values_of_def)
  then show ?thesis by (simp add: Cons rest n_def round_double_small)
qed

lemma values_of_responses: "values_of (responses xs) = js_fib_from (Fin 1) (Fin 1) (length xs)"
  unfolding responses_def by (rule run_fresh) simp_all

lemma length_responses: "length (responses xs) = length xs"
  unfolding responses_def by (rule run_length)

lemma responses_nth_value:
  "k < length xs \<Longrightarrow> counter (current (responses xs ! k)) = js_fib_from (Fin 1) (Fin 1) (length xs) ! k"
proof -
  assume k: "k < length xs"
  then have "values_of (responses xs) ! k = counter (current (responses xs ! k))"
    by (simp add: values_of_def length_responses)
  then show ?thesis by (simp add: values_of_responses)
qed

lemma responses_timestamps:
  "map (\<lambda>r. timestamp (current r)) (responses xs) = map snd xs"
  unfolding responses_def by (rule run_timestamps)

lemma stored_after:
  "k < length xs \<Longrightarrow> final_storage (take (Suc k) xs) ''current'' = Some (current (responses xs ! k))"
  unfolding responses_def final_storage_def by (rule run_stored_nth)

lemma responses_timestamp_nth:
  assumes "k < length xs"
  shows "timestamp (current (responses xs ! k)) = snd (xs ! k)"
proof -
  have "map (\<lambda>r. timestamp (current r)) (responses xs) ! k = map snd xs ! k"
    by (simp only: responses_timestamps)
  then show ?thesis using assms by (simp add: length_responses)
qed

lemma length_four_invocations: "length four_invocations = 4"
  by (simp add: four_invocations_def)

lemma length_invocations: "length (invocations n) = n"
  by (simp add: invocations_def)

section \<open>Facts for the statements\<close>

lemma length_fib_from: "length (fib_from a b n) = n"
  by (induction n arbitrary: a b) simp_all

lemma fib_from_recurrence:
  "Suc (Suc i) < n \<Longrightarrow>
     fib_from a b n ! Suc (Suc i) = fib_from a b n ! Suc i + fib_from a b n ! i"
proof (induction n arbitrary: a b i)
  case 0
  then show ?case by simp
next
  case (Suc n)
  show ?case
  proof (cases i)
    case 0
    with Suc.prems have "n = Suc (Suc (n - 2))" by simp
    then obtain m where "n = Suc (Suc m)" ..
    then show ?thesis using 0 by simp
  next
    case (Suc j)
    with Suc.prems have "Suc (Suc j) < n" by simp
    from Suc.IH [OF this] show ?thesis using Suc by simp
  qed
qed

lemma js_fib_nth_prefix:
  assumes "k < n" "k < m"
  shows "js_fib_from a b n ! k = js_fib_from a b m ! k"
proof -
  have "js_fib_from a b l ! k = js_fib_from a b (Suc k) ! k" if "k < l" for l
  proof -
    have "l = Suc k + (l - Suc k)" using that by simp
    then have "take (Suc k) (js_fib_from a b l) = js_fib_from a b (Suc k)"
      using js_fib_from_take [of "Suc k" a b "l - Suc k"] by simp
    then have "take (Suc k) (js_fib_from a b l) ! k = js_fib_from a b (Suc k) ! k" by simp
    then show ?thesis by simp
  qed
  then show ?thesis using assms by simp
qed

lemma js_fib_exact:
  assumes "Suc (Suc i) < n" "Suc (Suc i) < 76"
  shows "\<exists>x y. js_fib_from (Fin 1) (Fin 1) n ! i = Fin x
    \<and> js_fib_from (Fin 1) (Fin 1) n ! Suc i = Fin y
    \<and> js_fib_from (Fin 1) (Fin 1) n ! Suc (Suc i) = Fin (y + x)"
proof -
  have e: "js_fib_from (Fin 1) (Fin 1) n ! k = Fin (fib_from 1 1 76 ! k)" if "k < n" "k < 76" for k
  proof -
    have "js_fib_from (Fin 1) (Fin 1) n ! k = js_fib_from (Fin 1) (Fin 1) 76 ! k"
      using that by (rule js_fib_nth_prefix)
    also have "\<dots> = map Fin (fib_from 1 1 76) ! k" by (simp only: js_fib_76)
    also have "\<dots> = Fin (fib_from 1 1 76 ! k)" using that(2) by (simp add: length_fib_from)
    finally show ?thesis .
  qed
  have "fib_from 1 1 76 ! Suc (Suc i) = fib_from 1 1 76 ! Suc i + fib_from 1 1 76 ! i"
    using assms(2) by (rule fib_from_recurrence)
  moreover have "i < n" "i < 76" "Suc i < n" "Suc i < 76" using assms by simp_all
  ultimately show ?thesis using e assms by simp
qed

lemma js_fib_first_three:
  "0 < n \<Longrightarrow> js_fib_from (Fin 1) (Fin 1) n ! 0 = Fin 2"
  "1 < n \<Longrightarrow> js_fib_from (Fin 1) (Fin 1) n ! 1 = Fin 3"
  "2 < n \<Longrightarrow> js_fib_from (Fin 1) (Fin 1) n ! 2 = Fin 5"
proof -
  have "js_fib_from (Fin 1) (Fin 1) 3 = [Fin 2, Fin 3, Fin 5]"
    by (simp add: numeral_3_eq_3 round_double_small)
  then have three: "js_fib_from (Fin 1) (Fin 1) 3 ! 0 = Fin 2" "js_fib_from (Fin 1) (Fin 1) 3 ! 1 = Fin 3"
    "js_fib_from (Fin 1) (Fin 1) 3 ! 2 = Fin 5" by simp_all
  show "0 < n \<Longrightarrow> js_fib_from (Fin 1) (Fin 1) n ! 0 = Fin 2"
    using js_fib_nth_prefix [of 0 n 3 "Fin 1" "Fin 1"] three by simp
  show "1 < n \<Longrightarrow> js_fib_from (Fin 1) (Fin 1) n ! 1 = Fin 3"
    using js_fib_nth_prefix [of 1 n 3 "Fin 1" "Fin 1"] three by simp
  show "2 < n \<Longrightarrow> js_fib_from (Fin 1) (Fin 1) n ! 2 = Fin 5"
    using js_fib_nth_prefix [of 2 n 3 "Fin 1" "Fin 1"] three by simp
qed

lemma js_fib_77_values:
  "js_fib_from (Fin 1) (Fin 1) 77 ! 74 = Fin 5527939700884757"
  "js_fib_from (Fin 1) (Fin 1) 77 ! 75 = Fin 8944394323791464"
  "js_fib_from (Fin 1) (Fin 1) 77 ! 76 = Fin 14472334024676220"
  by code_simp+

text \<open>
  Sums that round: adding 1 to \<open>2^53\<close> or to \<open>2^60\<close> changes nothing, and
  the sum of the 75th and the 76th value of a fresh object, which ends in
  221, is the double that ends in 220.
\<close>

lemma js_add_rounds:
  "js_add (Fin 1) (Fin (2 ^ 53)) = Fin (2 ^ 53)"
  "js_add (Fin (2 ^ 60)) (Fin 1) = Fin (2 ^ 60)"
  "js_add (Fin 5527939700884757) (Fin 8944394323791464) = Fin 14472334024676220"
  by code_simp+

text \<open>
  Rounding at the first integers that are not doubles, to the even
  significand on a tie, and at the largest double: the integer half a step
  above it is the first that becomes infinity.
\<close>

lemma round_double_ties:
  "round_double (2 ^ 53 + 1) = Fin (2 ^ 53)"
  "round_double (2 ^ 53 + 2) = Fin (2 ^ 53 + 2)"
  "round_double (2 ^ 53 + 3) = Fin (2 ^ 53 + 4)"
  "round_double (2 ^ 54 - 1) = Fin (2 ^ 54)"
  "round_double (- (2 ^ 53 + 3)) = Fin (- (2 ^ 53 + 4))"
  by code_simp+

lemma round_double_largest:
  "round_double (2 ^ 1024 - 2 ^ 970 - 1) = Fin (2 ^ 1024 - 2 ^ 971)"
  "round_double (2 ^ 1024 - 2 ^ 970) = PosInf"
  by code_simp+



lemma values_overflow:
  assumes "4097 \<le> k" "k < length xs"
  shows "counter (current (responses xs ! k)) = PosInf"
  using assms by (simp add: responses_nth_value js_fib_overflow)

lemma final_current_value:
  assumes "xs \<noteq> []"
  shows "optional_counter (final_storage xs ''current'')
    = Some (counter (current (responses xs ! (length xs - 1))))"
proof -
  have "responses xs \<noteq> []" using assms length_responses [of xs] by auto
  then have "last (responses xs) = responses xs ! (length xs - 1)"
    by (simp add: last_conv_nth length_responses)
  then show ?thesis
    using run_stored_current [OF assms, of Map.empty]
    by (simp add: optional_counter_def final_storage_def responses_def)
qed

lemma final_previous_value:
  assumes "2 \<le> length xs"
  shows "optional_counter (final_storage xs ''previous'')
    = Some (counter (current (responses xs ! (length xs - 2))))"
proof -
  define rs where "rs = fst (run Map.empty xs)"
  have ne: "xs \<noteq> []" using assms by auto
  have "length xs = Suc (Suc (length xs - 2))" using assms by simp
  then obtain k where k: "length xs = Suc (Suc k)" ..
  have len: "length rs = Suc (Suc k)" unfolding rs_def by (simp add: run_length k)
  then have "rs \<noteq> []" by auto
  then have l: "last rs = rs ! Suc k" by (simp add: last_conv_nth len)
  have "previous (rs ! Suc k) = Some (current (rs ! k))"
    unfolding rs_def by (rule run_previous_chain) (simp add: k)
  then have "previous (last rs) = Some (current (rs ! k))" by (simp only: l)
  moreover have "snd (run Map.empty xs) ''previous'' = previous (last rs)"
    unfolding rs_def using ne by (rule run_stored_previous) simp
  ultimately show ?thesis
    by (simp add: optional_counter_def final_storage_def responses_def rs_def k)
qed

lemma final_four_current: "final_storage four_invocations ''current'' = Some (stored (Fin 8) 35)"
  by (simp add: final_storage_def four_invocations_def run_first run_next stored_def
      or_else_def optional_counter_def falsy_def round_double_small)

lemma final_four_previous: "final_storage four_invocations ''previous'' = Some (stored (Fin 5) 20)"
  by (simp add: final_storage_def four_invocations_def run_first run_next stored_def
      or_else_def optional_counter_def falsy_def round_double_small)

lemma failed_write_storage:
  "invoke_all Map.empty failed_write_series ''current'' = Some (stored (Fin 2) 10)"
  "invoke_all Map.empty failed_write_series ''previous'' = Some (stored (Fin 2) 10)"
  by (simp_all add: failed_write_series_def getCounter_def storage_get_def storage_put_def
      no_faults_def current_write_fails_def stored_def Let_def)

section \<open>The first invocation\<close>

text \<open>
  Claim C2. Whatever the location and the clock, an invocation on a storage
  that holds no record under \<^verbatim>\<open>current\<close> succeeds, returns the counter 2
  and no previous record, and leaves the \<^verbatim>\<open>previous\<close> slot as it was: the
  only key it writes is \<^verbatim>\<open>current\<close>.
\<close>

theorem C2_first_invocation:
  assumes "s ''current'' = None"
  shows "\<exists>r s'. getCounter no_faults now s loc = (Inr r, s')
           \<and> counter (current r) = Fin 2 \<and> previous r = None
           \<and> s' ''previous'' = s ''previous''
           \<and> s' = s(''current'' \<mapsto> current r)"
  using assms by (simp add: getCounter_first)

theorem C2_first_invocation_witness:
  "[''previous'' \<mapsto> stored (Fin 7) 10] ''current'' = None \<and>
   (\<exists>r s'. getCounter no_faults 20 [''previous'' \<mapsto> stored (Fin 7) 10] unknown_location = (Inr r, s')
           \<and> counter (current r) = Fin 2 \<and> previous r = None
           \<and> s' ''previous'' = [''previous'' \<mapsto> stored (Fin 7) 10] ''previous''
           \<and> s' = [''previous'' \<mapsto> stored (Fin 7) 10](''current'' \<mapsto> current r))"
  using C2_first_invocation [of "[''previous'' \<mapsto> stored (Fin 7) 10]" 20 unknown_location] by simp

section \<open>The next value\<close>

text \<open>
  Claim C3 as stated takes the stored previous counter for every value it
  holds, 0 included. The source falls back to 1 with \<^verbatim>\<open>||\<close>, which also
  replaces a stored 0: with 5 under \<^verbatim>\<open>current\<close> and 0 under
  \<^verbatim>\<open>previous\<close> the new value is 6, not the sum of 0 and 5.
\<close>

theorem C3_counterexample:
  "new_value (getCounter no_faults 20
       [''current'' \<mapsto> stored (Fin 5) 10, ''previous'' \<mapsto> stored (Fin 0) 5] unknown_location)
     = Some (Fin 6) \<and>
   new_value (getCounter no_faults 20
       [''current'' \<mapsto> stored (Fin 5) 10, ''previous'' \<mapsto> stored (Fin 0) 5] unknown_location)
     \<noteq> Some (js_add (counter (stored (Fin 0) 5)) (counter (stored (Fin 5) 10)))"
  by (simp add: new_value_def getCounter_next [of _ "stored (Fin 5) 10"] or_else_def
      optional_counter_def stored_def falsy_def round_double_small)

text \<open>
  Claim C3, amended. When a record is stored under \<^verbatim>\<open>current\<close>, the
  invocation succeeds and the new value is the sum, as \<^verbatim>\<open>+\<close> adds
  numbers, of \<open>p\<close> and the stored current counter, where \<open>p\<close> is the
  stored previous counter if a previous record is present and its counter is
  neither 0 nor not-a-number, and 1 otherwise. The sum is the exact integer
  sum when that is below \<open>2^53\<close> in magnitude, and the nearest double
  otherwise.
\<close>

theorem C3_next_value:
  assumes "s ''current'' = Some c"
  shows "\<exists>r s' p. getCounter no_faults now s loc = (Inr r, s')
           \<and> p = (case s ''previous'' of
                    None \<Rightarrow> Fin 1
                  | Some d \<Rightarrow> if counter d = Fin 0 \<or> counter d = NaN then Fin 1 else counter d)
           \<and> counter (current r) = js_add p (counter c)
           \<and> (\<forall>a b. p = Fin a \<and> counter c = Fin b \<and> - (2 ^ 53) < a + b \<and> a + b < 2 ^ 53 \<longrightarrow>
                 counter (current r) = Fin (a + b))"
proof -
  have "or_else (optional_counter (s ''previous'')) (Fin 1) =
      (case s ''previous'' of
         None \<Rightarrow> Fin 1
       | Some d \<Rightarrow> if counter d = Fin 0 \<or> counter d = NaN then Fin 1 else counter d)"
    by (simp add: or_else_def optional_counter_def falsy_def split: option.splits)
  then show ?thesis using assms by (auto simp add: getCounter_next round_double_small)
qed

theorem C3_next_value_witness:
  "[''current'' \<mapsto> stored (Fin 5) 10, ''previous'' \<mapsto> stored (Fin 3) 5] ''current''
     = Some (stored (Fin 5) 10) \<and>
   new_value (getCounter no_faults 20
       [''current'' \<mapsto> stored (Fin 5) 10, ''previous'' \<mapsto> stored (Fin 3) 5] unknown_location)
     = Some (Fin 8)"
  using C3_next_value [of "[''current'' \<mapsto> stored (Fin 5) 10, ''previous'' \<mapsto> stored (Fin 3) 5]"
      "stored (Fin 5) 10" 20 unknown_location]
  by (auto simp add: new_value_def stored_def)

section \<open>The response\<close>

text \<open>
  Claim C5. For every storage and every location, the invocation returns the
  new record, which is also what it stores under \<^verbatim>\<open>current\<close>, together
  with the record that was stored under \<^verbatim>\<open>current\<close> when it started, or
  none if there was none. Whatever the \<^verbatim>\<open>previous\<close> slot holds, the
  returned previous record is that pre-update current record.
\<close>

theorem C5_returned_previous:
  "(\<exists>n s'. getCounter no_faults now s loc = (Inr \<lparr>current = n, previous = s ''current''\<rparr>, s')
        \<and> location n = loc \<and> timestamp n = now \<and> s' ''current'' = Some n)
   \<and> (\<forall>x. \<exists>r s'. getCounter no_faults now (s(''previous'' := x)) loc = (Inr r, s')
        \<and> previous r = s ''current'')"
proof (cases "s ''current''")
  case None
  then show ?thesis by (simp add: getCounter_first)
next
  case (Some c)
  then show ?thesis by (simp add: getCounter_next)
qed

text \<open>
  Claim C6. The location passed to an invocation is returned unchanged as
  the location of the current record of its response and is stored unchanged
  with the record under \<^verbatim>\<open>current\<close>; the next invocation on the same
  object, whatever its own location and clock, returns it as the location of
  its previous record.
\<close>

theorem C6_context_verbatim:
  "\<exists>r1 s1. getCounter no_faults t1 s loc = (Inr r1, s1)
      \<and> location (current r1) = loc
      \<and> s1 ''current'' = Some (current r1)
      \<and> (\<forall>t2 loc2. \<exists>r2 s2 p. getCounter no_faults t2 s1 loc2 = (Inr r2, s2)
            \<and> previous r2 = Some p \<and> location p = loc)"
proof (cases "s ''current''")
  case None
  then show ?thesis by (simp add: getCounter_first getCounter_next)
next
  case (Some c)
  then show ?thesis by (simp add: getCounter_next)
qed

section \<open>A failing write\<close>

text \<open>
  Claim C8. When a current record is stored, the reads and the write of
  \<^verbatim>\<open>previous\<close> succeed and the write of \<^verbatim>\<open>current\<close> fails, the
  invocation fails with the write failure and leaves the storage with the
  old current record under both keys: \<^verbatim>\<open>previous\<close> is updated,
  \<^verbatim>\<open>current\<close> is stale, and the write of \<^verbatim>\<open>previous\<close> is not undone.
\<close>

theorem C8_no_rollback:
  assumes "s ''current'' = Some c"
    and "\<not> get_fails f ''current''" and "\<not> get_fails f ''previous''"
    and "\<not> put_fails f ''previous''" and "put_fails f ''current''"
  shows "\<exists>s'. getCounter f now s loc = (Inl StorageWriteFailure, s')
           \<and> s' ''previous'' = Some c \<and> s' ''current'' = Some c
           \<and> s' = s(''previous'' \<mapsto> c)"
  using assms by (simp add: getCounter_def storage_get_def storage_put_def Let_def)

theorem C8_no_rollback_witness:
  "[''current'' \<mapsto> stored (Fin 5) 10, ''previous'' \<mapsto> stored (Fin 3) 5] ''current''
     = Some (stored (Fin 5) 10)
   \<and> \<not> get_fails current_write_fails ''current'' \<and> \<not> get_fails current_write_fails ''previous''
   \<and> \<not> put_fails current_write_fails ''previous'' \<and> put_fails current_write_fails ''current''
   \<and> (\<exists>s'. getCounter current_write_fails 20
              [''current'' \<mapsto> stored (Fin 5) 10, ''previous'' \<mapsto> stored (Fin 3) 5] unknown_location
            = (Inl StorageWriteFailure, s')
           \<and> s' ''previous'' = Some (stored (Fin 5) 10) \<and> s' ''current'' = Some (stored (Fin 5) 10)
           \<and> s' = [''current'' \<mapsto> stored (Fin 5) 10, ''previous'' \<mapsto> stored (Fin 3) 5]
                 (''previous'' \<mapsto> stored (Fin 5) 10))"
  using C8_no_rollback [of "[''current'' \<mapsto> stored (Fin 5) 10, ''previous'' \<mapsto> stored (Fin 3) 5]"
      "stored (Fin 5) 10" current_write_fails 20 unknown_location]
  by (simp add: current_write_fails_def)

section \<open>Timestamps\<close>

text \<open>
  Claim C9. In a series of successful invocations on a fresh object whose
  clock reads never go back, the timestamps written are exactly the clock
  reads, in order, hence non-decreasing; and the record stored under
  \<^verbatim>\<open>current\<close> after an invocation, which is the current record of its
  response, never has a timestamp earlier than the one stored after the
  invocation before it.
\<close>

theorem C9_timestamps_monotone:
  assumes "sorted (map snd xs)"
  shows "map (\<lambda>r. timestamp (current r)) (responses xs) = map snd xs
    \<and> sorted (map (\<lambda>r. timestamp (current r)) (responses xs))
    \<and> (\<forall>k. Suc k < length xs \<longrightarrow>
          (\<exists>a b. final_storage (take (Suc k) xs) ''current'' = Some a
               \<and> final_storage (take (Suc (Suc k)) xs) ''current'' = Some b
               \<and> a = current (responses xs ! k) \<and> b = current (responses xs ! Suc k)
               \<and> timestamp a \<le> timestamp b))"
proof (intro conjI allI impI)
  show "map (\<lambda>r. timestamp (current r)) (responses xs) = map snd xs"
    by (rule responses_timestamps)
  show "sorted (map (\<lambda>r. timestamp (current r)) (responses xs))"
    using assms by (simp only: responses_timestamps)
next
  fix k
  assume k: "Suc k < length xs"
  then have k0: "k < length xs" by simp
  have "map snd xs ! k \<le> map snd xs ! Suc k"
    using assms k by (intro sorted_nth_mono) simp_all
  then have le: "timestamp (current (responses xs ! k)) \<le> timestamp (current (responses xs ! Suc k))"
    using k k0 by (simp add: responses_timestamp_nth)
  show "\<exists>a b. final_storage (take (Suc k) xs) ''current'' = Some a
               \<and> final_storage (take (Suc (Suc k)) xs) ''current'' = Some b
               \<and> a = current (responses xs ! k) \<and> b = current (responses xs ! Suc k)
               \<and> timestamp a \<le> timestamp b"
    using stored_after [OF k0] stored_after [OF k] le by simp
qed

theorem C9_timestamps_monotone_witness:
  "sorted (map snd four_invocations)
   \<and> map (\<lambda>r. timestamp (current r)) (responses four_invocations) = [10, 20, 20, 35]
   \<and> sorted (map (\<lambda>r. timestamp (current r)) (responses four_invocations))
   \<and> Suc 2 < length four_invocations
   \<and> (\<exists>a b. final_storage (take (Suc 2) four_invocations) ''current'' = Some a
        \<and> final_storage (take (Suc (Suc 2)) four_invocations) ''current'' = Some b
        \<and> a = current (responses four_invocations ! 2)
        \<and> b = current (responses four_invocations ! Suc 2)
        \<and> timestamp a \<le> timestamp b)"
proof -
  have s: "sorted (map snd four_invocations)" by (simp add: four_invocations_def)
  have m: "map snd four_invocations = [10, 20, 20, 35]" by (simp add: four_invocations_def)
  have l: "Suc 2 < length four_invocations" by (simp add: four_invocations_def)
  show ?thesis
    using C9_timestamps_monotone [OF s] s m l
      C9_timestamps_monotone [OF s, THEN conjunct2, THEN conjunct2, THEN spec [of _ 2]]
    by simp
qed

section \<open>The sequence of returned values\<close>

text \<open>
  Claim C1 as stated takes the sum in the integers. The source adds
  numbers: on a fresh object the 75th and 76th invocations return
  5527939700884757 and 8944394323791464, and the 77th returns
  14472334024676220, one less than their sum.
\<close>

theorem C1_counterexample:
  "counter (current (responses (invocations 77) ! 74)) = Fin 5527939700884757
   \<and> counter (current (responses (invocations 77) ! 75)) = Fin 8944394323791464
   \<and> counter (current (responses (invocations 77) ! 76)) = Fin 14472334024676220
   \<and> (14472334024676220 :: int) \<noteq> 8944394323791464 + 5527939700884757"
  by (simp add: responses_nth_value length_invocations js_fib_77_values)

text \<open>
  Claim C1, amended. On a fresh object every invocation of a series returns,
  and from the third invocation on the current counter returned by the
  \<open>n\<close>-th invocation is the sum, as \<^verbatim>\<open>+\<close> adds numbers, of those returned
  by the two invocations before it; up to the 76th invocation this is their
  exact integer sum. The second invocation returns the current counter 3
  with a previous record of counter 2, the third the current counter 5 with
  a previous record of counter 3. (The \<open>n\<close>-th response is at index
  \<open>n - 1\<close>.)
\<close>

theorem C1_fibonacci_recurrence:
  "length (responses xs) = length xs
   \<and> (\<forall>n. 3 \<le> n \<and> n \<le> length xs \<longrightarrow>
         counter (current (responses xs ! (n - 1))) =
           js_add (counter (current (responses xs ! (n - 3))))
             (counter (current (responses xs ! (n - 2)))))
   \<and> (\<forall>n. 3 \<le> n \<and> n \<le> length xs \<and> n \<le> 76 \<longrightarrow>
         (\<exists>a b. counter (current (responses xs ! (n - 3))) = Fin a
              \<and> counter (current (responses xs ! (n - 2))) = Fin b
              \<and> counter (current (responses xs ! (n - 1))) = Fin (b + a)))
   \<and> (2 \<le> length xs \<longrightarrow>
         counter (current (responses xs ! 1)) = Fin 3
         \<and> optional_counter (previous (responses xs ! 1)) = Some (Fin 2))
   \<and> (3 \<le> length xs \<longrightarrow>
         counter (current (responses xs ! 2)) = Fin 5
         \<and> optional_counter (previous (responses xs ! 2)) = Some (Fin 3))"
proof (intro conjI allI impI)
  show "length (responses xs) = length xs" by (rule length_responses)
next
  fix n
  assume n: "3 \<le> n \<and> n \<le> length xs"
  then have "n = Suc (Suc (Suc (n - 3)))" by linarith
  then obtain i where i: "n = Suc (Suc (Suc i))" ..
  with n have lt: "Suc (Suc i) < length xs" by simp
  have "js_fib_from (Fin 1) (Fin 1) (length xs) ! Suc (Suc i) =
      js_add (js_fib_from (Fin 1) (Fin 1) (length xs) ! i)
        (js_fib_from (Fin 1) (Fin 1) (length xs) ! Suc i)"
    using lt by (rule js_fib_recurrence)
  then show "counter (current (responses xs ! (n - 1))) =
      js_add (counter (current (responses xs ! (n - 3))))
        (counter (current (responses xs ! (n - 2))))"
    using lt by (simp add: i responses_nth_value)
next
  fix n
  assume n: "3 \<le> n \<and> n \<le> length xs \<and> n \<le> 76"
  then have "n = Suc (Suc (Suc (n - 3)))" by linarith
  then obtain i where i: "n = Suc (Suc (Suc i))" ..
  with n have lt: "Suc (Suc i) < length xs" and lt76: "Suc (Suc i) < 76" by simp_all
  from js_fib_exact [OF lt lt76]
  show "\<exists>a b. counter (current (responses xs ! (n - 3))) = Fin a
              \<and> counter (current (responses xs ! (n - 2))) = Fin b
              \<and> counter (current (responses xs ! (n - 1))) = Fin (b + a)"
    using lt by (simp add: i responses_nth_value)
next
  assume len: "2 \<le> length xs"
  then have l0: "0 < length xs" and l1: "1 < length xs" by linarith+
  have v0: "counter (current (responses xs ! 0)) = Fin 2"
    using responses_nth_value [OF l0] js_fib_first_three(1) [OF l0] by simp
  show "counter (current (responses xs ! 1)) = Fin 3"
    using responses_nth_value [OF l1] js_fib_first_three(2) [OF l1] by simp
  have "Suc 0 < length xs" using len by simp
  then have "previous (fst (run Map.empty xs) ! Suc 0) = Some (current (fst (run Map.empty xs) ! 0))"
    by (rule run_previous_chain)
  then show "optional_counter (previous (responses xs ! 1)) = Some (Fin 2)"
    using v0 by (simp add: optional_counter_def responses_def)
next
  assume len: "3 \<le> length xs"
  then have l1: "1 < length xs" and l2: "2 < length xs" by linarith+
  have v1: "counter (current (responses xs ! 1)) = Fin 3"
    using responses_nth_value [OF l1] js_fib_first_three(2) [OF l1] by simp
  show "counter (current (responses xs ! 2)) = Fin 5"
    using responses_nth_value [OF l2] js_fib_first_three(3) [OF l2] by simp
  have "Suc 1 < length xs" using len by simp
  then have "previous (fst (run Map.empty xs) ! Suc 1) = Some (current (fst (run Map.empty xs) ! 1))"
    by (rule run_previous_chain)
  then show "optional_counter (previous (responses xs ! 2)) = Some (Fin 3)"
    using v1 by (simp add: optional_counter_def responses_def numeral_2_eq_2)
qed

theorem C1_fibonacci_recurrence_witness:
  "length (responses four_invocations) = length four_invocations
   \<and> 3 \<le> (4::nat) \<and> 4 \<le> length four_invocations \<and> (4::nat) \<le> 76
   \<and> counter (current (responses four_invocations ! (4 - 1))) =
       js_add (counter (current (responses four_invocations ! (4 - 3))))
         (counter (current (responses four_invocations ! (4 - 2))))
   \<and> (\<exists>a b. counter (current (responses four_invocations ! (4 - 3))) = Fin a
        \<and> counter (current (responses four_invocations ! (4 - 2))) = Fin b
        \<and> counter (current (responses four_invocations ! (4 - 1))) = Fin (b + a))
   \<and> 2 \<le> length four_invocations
   \<and> counter (current (responses four_invocations ! 1)) = Fin 3
   \<and> optional_counter (previous (responses four_invocations ! 1)) = Some (Fin 2)
   \<and> 3 \<le> length four_invocations
   \<and> counter (current (responses four_invocations ! 2)) = Fin 5
   \<and> optional_counter (previous (responses four_invocations ! 2)) = Some (Fin 3)"
  using C1_fibonacci_recurrence [of four_invocations]
    C1_fibonacci_recurrence [of four_invocations, THEN conjunct2, THEN conjunct1,
      THEN spec [of _ "4::nat"]]
    C1_fibonacci_recurrence [of four_invocations, THEN conjunct2, THEN conjunct2, THEN conjunct1,
      THEN spec [of _ "4::nat"]]
    length_four_invocations
  by simp

section \<open>The two slots\<close>

text \<open>
  Claim C4. The storage states of an object are those reached from the empty
  storage by a series of invocations, failed ones included. On every one of
  them, an invocation that completes successfully, whatever storage calls
  could have failed, leaves under \<^verbatim>\<open>previous\<close> the record that was under
  \<^verbatim>\<open>current\<close> when it started (none on the first invocation), and the
  storage then holds no key but \<^verbatim>\<open>current\<close> and \<^verbatim>\<open>previous\<close>. On
  every storage whatsoever, a successful invocation leaves exactly the
  storage it found with the old current record, if there was one, moved
  under \<^verbatim>\<open>previous\<close> and the returned record under \<^verbatim>\<open>current\<close>: it
  touches no other key and keeps no older record; and without failing
  storage calls the invocation does succeed.
\<close>

theorem C4_shift_register:
  "(succeeded (getCounter f now (invoke_all Map.empty ops) loc) \<longrightarrow>
      snd (getCounter f now (invoke_all Map.empty ops) loc) ''previous''
        = invoke_all Map.empty ops ''current''
      \<and> dom (snd (getCounter f now (invoke_all Map.empty ops) loc)) \<subseteq> {''current'', ''previous''})
   \<and> (succeeded (getCounter f now s loc) \<longrightarrow>
        (\<exists>r. getCounter f now s loc =
           (Inr r, (case s ''current'' of None \<Rightarrow> s | Some c \<Rightarrow> s(''previous'' \<mapsto> c))
                     (''current'' \<mapsto> current r))))
   \<and> succeeded (getCounter no_faults now s loc)"
proof -
  have exact: "\<exists>r. getCounter no_faults now s loc =
      (Inr r, (case s ''current'' of None \<Rightarrow> s | Some c \<Rightarrow> s(''previous'' \<mapsto> c))
                (''current'' \<mapsto> current r))" for s
    by (cases "s ''current''") (simp_all add: getCounter_first getCounter_next)
  have c: "succeeded (getCounter no_faults now s loc)" by (rule getCounter_succeeds)
  have b: "succeeded (getCounter f now s loc) \<longrightarrow>
        (\<exists>r. getCounter f now s loc =
           (Inr r, (case s ''current'' of None \<Rightarrow> s | Some c \<Rightarrow> s(''previous'' \<mapsto> c))
                     (''current'' \<mapsto> current r)))"
  proof
    assume "succeeded (getCounter f now s loc)"
    then have "getCounter f now s loc = getCounter no_faults now s loc" by (rule success_general)
    then show "\<exists>r. getCounter f now s loc =
           (Inr r, (case s ''current'' of None \<Rightarrow> s | Some c \<Rightarrow> s(''previous'' \<mapsto> c))
                     (''current'' \<mapsto> current r))"
      using exact [of s] by (simp only:)
  qed
  define t where "t = invoke_all Map.empty ops"
  have a: "succeeded (getCounter f now t loc) \<longrightarrow>
      snd (getCounter f now t loc) ''previous'' = t ''current''
      \<and> dom (snd (getCounter f now t loc)) \<subseteq> {''current'', ''previous''}"
  proof
    assume ok: "succeeded (getCounter f now t loc)"
    then have eq: "getCounter f now t loc = getCounter no_faults now t loc"
      by (rule success_general)
    have inv: "two_slots t" unfolding t_def by (rule two_slots_reachable)
    obtain r where r: "getCounter no_faults now t loc =
        (Inr r, (case t ''current'' of None \<Rightarrow> t | Some c \<Rightarrow> t(''previous'' \<mapsto> c))
                  (''current'' \<mapsto> current r))"
      using exact [of t] ..
    have "snd (getCounter f now t loc) ''previous'' = t ''current''"
      using inv by (simp add: eq r two_slots_def split: option.splits)
    moreover have "dom (snd (getCounter f now t loc)) \<subseteq> {''current'', ''previous''}"
      using inv by (auto simp add: eq r two_slots_def split: option.splits)
    ultimately show "snd (getCounter f now t loc) ''previous'' = t ''current''
      \<and> dom (snd (getCounter f now t loc)) \<subseteq> {''current'', ''previous''}" ..
  qed
  from a b c show ?thesis unfolding t_def by (intro conjI)
qed

theorem C4_shift_register_witness:
  "succeeded (getCounter no_faults 30 (invoke_all Map.empty failed_write_series) unknown_location)
   \<and> invoke_all Map.empty failed_write_series ''current'' = Some (stored (Fin 2) 10)
   \<and> snd (getCounter no_faults 30 (invoke_all Map.empty failed_write_series) unknown_location)
       ''previous'' = Some (stored (Fin 2) 10)
   \<and> dom (snd (getCounter no_faults 30 (invoke_all Map.empty failed_write_series) unknown_location))
       \<subseteq> {''current'', ''previous''}
   \<and> (\<exists>r. getCounter no_faults 30 (invoke_all Map.empty failed_write_series) unknown_location =
         (Inr r, (case invoke_all Map.empty failed_write_series ''current'' of
                    None \<Rightarrow> invoke_all Map.empty failed_write_series
                  | Some c \<Rightarrow> (invoke_all Map.empty failed_write_series)(''previous'' \<mapsto> c))
                   (''current'' \<mapsto> current r)))"
  using C4_shift_register [of no_faults 30 failed_write_series unknown_location
      "invoke_all Map.empty failed_write_series"]
    failed_write_storage(1)
  by simp

section \<open>Two invocations in succession\<close>




section \<open>The reachable storages\<close>

text \<open>
  Claim C10 as stated is about every storage reached from the empty one. On
  a fresh object the counters overflow to infinity: after 5000 invocations
  both slots hold a record with counter infinity, so the stored current
  counter is not greater than the stored previous one.
\<close>

theorem C10_counterexample:
  "optional_counter (final_storage (invocations 5000) ''current'') = Some PosInf
   \<and> optional_counter (final_storage (invocations 5000) ''previous'') = Some PosInf
   \<and> \<not> js_less PosInf PosInf"
proof -
  have ne: "invocations 5000 \<noteq> []" by (simp add: invocations_def)
  have "counter (current (responses (invocations 5000) ! 4999)) = PosInf"
    by (rule values_overflow) (simp_all add: length_invocations)
  then have a: "optional_counter (final_storage (invocations 5000) ''current'') = Some PosInf"
    using final_current_value [OF ne] by (simp add: length_invocations)
  have "counter (current (responses (invocations 5000) ! 4998)) = PosInf"
    by (rule values_overflow) (simp_all add: length_invocations)
  then have b: "optional_counter (final_storage (invocations 5000) ''previous'') = Some PosInf"
    using final_previous_value [of "invocations 5000"] by (simp add: length_invocations)
  from a b show ?thesis by simp
qed

text \<open>
  Claim C10, amended. In every storage reached from the empty one by
  successful invocations, a stored current counter is at least 2, a stored
  previous counter is at least 2 and below the stored current counter
  unless both are infinity; so no stored counter is 0 or not-a-number, the
  fallback \<^verbatim>\<open>previousData?.counter || 1\<close> gives the stored previous counter
  whenever a previous record is present and 1 only when it is absent, and
  the returned current counters strictly increase along the series until
  one is infinity, from where on all are.
\<close>

theorem C10_reachable_invariant:
  "(\<forall>c. final_storage xs ''current'' = Some c \<longrightarrow>
       js_less_eq (Fin 2) (counter c) \<and> \<not> falsy (counter c))
   \<and> (\<forall>p. final_storage xs ''previous'' = Some p \<longrightarrow>
         js_less_eq (Fin 2) (counter p) \<and> \<not> falsy (counter p)
         \<and> (\<exists>c. final_storage xs ''current'' = Some c
              \<and> (js_less (counter p) (counter c)
                   \<or> (counter p = PosInf \<and> counter c = PosInf))))
   \<and> or_else (optional_counter (final_storage xs ''previous'')) (Fin 1) =
       (case final_storage xs ''previous'' of None \<Rightarrow> Fin 1 | Some p \<Rightarrow> counter p)
   \<and> (\<forall>k. Suc k < length xs \<longrightarrow>
         js_less (counter (current (responses xs ! k))) (counter (current (responses xs ! Suc k)))
         \<or> (counter (current (responses xs ! k)) = PosInf
              \<and> counter (current (responses xs ! Suc k)) = PosInf))"
proof -
  have inv: "fib_state (final_storage xs)" by (rule fib_state_final)
  have b: "\<forall>p. final_storage xs ''previous'' = Some p \<longrightarrow>
         js_less_eq (Fin 2) (counter p) \<and> \<not> falsy (counter p)
         \<and> (\<exists>c. final_storage xs ''current'' = Some c
              \<and> (js_less (counter p) (counter c)
                   \<or> (counter p = PosInf \<and> counter c = PosInf)))"
  proof (intro allI impI)
    fix p
    assume p: "final_storage xs ''previous'' = Some p"
    with inv obtain c where c: "final_storage xs ''current'' = Some c"
      and g: "growing (counter p) (counter c)"
      by (auto simp add: fib_state_def split: option.splits)
    show "js_less_eq (Fin 2) (counter p) \<and> \<not> falsy (counter p)
         \<and> (\<exists>c. final_storage xs ''current'' = Some c
              \<and> (js_less (counter p) (counter c)
                   \<or> (counter p = PosInf \<and> counter c = PosInf)))"
      using c growing_at_least [OF g] growing_truthy [OF g] growing_less [OF g] by simp
  qed
  have a: "\<forall>c. final_storage xs ''current'' = Some c \<longrightarrow>
       js_less_eq (Fin 2) (counter c) \<and> \<not> falsy (counter c)"
  proof (intro allI impI)
    fix c
    assume c: "final_storage xs ''current'' = Some c"
    show "js_less_eq (Fin 2) (counter c) \<and> \<not> falsy (counter c)"
    proof (cases "final_storage xs ''previous''")
      case None
      with inv c have "counter c = Fin 2" by (simp add: fib_state_def)
      then show ?thesis by (simp add: falsy_def)
    next
      case (Some p)
      with inv c have g: "growing (counter p) (counter c)" by (simp add: fib_state_def)
      show ?thesis using growing_at_least [OF g] growing_truthy [OF g] by simp
    qed
  qed
  have c: "or_else (optional_counter (final_storage xs ''previous'')) (Fin 1) =
       (case final_storage xs ''previous'' of None \<Rightarrow> Fin 1 | Some p \<Rightarrow> counter p)"
    using b by (auto simp add: or_else_def optional_counter_def split: option.splits)
  have d: "\<forall>k. Suc k < length xs \<longrightarrow>
         js_less (counter (current (responses xs ! k))) (counter (current (responses xs ! Suc k)))
         \<or> (counter (current (responses xs ! k)) = PosInf
              \<and> counter (current (responses xs ! Suc k)) = PosInf)"
  proof (intro allI impI)
    fix k
    assume k: "Suc k < length xs"
    then have k0: "k < length xs" by simp
    have "growing (js_fib_from (Fin 1) (Fin 1) (length xs) ! k)
        (js_fib_from (Fin 1) (Fin 1) (length xs) ! Suc k)"
      using k by (rule js_fib_increasing)
    then have "growing (counter (current (responses xs ! k)))
        (counter (current (responses xs ! Suc k)))"
      by (simp only: responses_nth_value [OF k] responses_nth_value [OF k0])
    then show "js_less (counter (current (responses xs ! k))) (counter (current (responses xs ! Suc k)))
         \<or> (counter (current (responses xs ! k)) = PosInf
              \<and> counter (current (responses xs ! Suc k)) = PosInf)"
      by (rule growing_less)
  qed
  from a b c d show ?thesis by (intro conjI)
qed

theorem C10_reachable_invariant_witness:
  "final_storage four_invocations ''current'' = Some (stored (Fin 8) 35)
   \<and> js_less_eq (Fin 2) (counter (stored (Fin 8) 35)) \<and> \<not> falsy (counter (stored (Fin 8) 35))
   \<and> final_storage four_invocations ''previous'' = Some (stored (Fin 5) 20)
   \<and> js_less_eq (Fin 2) (counter (stored (Fin 5) 20)) \<and> \<not> falsy (counter (stored (Fin 5) 20))
   \<and> js_less (counter (stored (Fin 5) 20)) (counter (stored (Fin 8) 35))
   \<and> or_else (optional_counter (final_storage four_invocations ''previous'')) (Fin 1) = Fin 5
   \<and> Suc 2 < length four_invocations
   \<and> (js_less (counter (current (responses four_invocations ! 2)))
          (counter (current (responses four_invocations ! Suc 2)))
        \<or> (counter (current (responses four_invocations ! 2)) = PosInf
             \<and> counter (current (responses four_invocations ! Suc 2)) = PosInf))"
  using C10_reachable_invariant [of four_invocations] final_four_current final_four_previous
    C10_reachable_invariant [of four_invocations, THEN conjunct2, THEN conjunct2, THEN conjunct2,
      THEN spec [of _ 2]]
    length_four_invocations
  by (simp add: stored_def falsy_def)

end
